theory Spec2Isabelle
  imports Main "HOL-Library.Char_ord" "HOL-Library.List_Lexorder" "HOL-Library.AList"
begin

section \<open>Migration runner (internal/migrator)\<close>

text \<open>
  The relational engine is modelled as an in-memory value: the ledger table
  (\<open>schema_migrations\<close>), the single lock row (\<open>schema_migrations_lock\<close>, \<open>id = 1\<close>)
  and the user's own data, of an arbitrary type \<open>'a\<close>.  Driver and network failures are
  outside the model: a statement fails only where the schema makes it fail (the primary
  key on \<open>version\<close>).  The column \<open>applied_at\<close> is not represented; the ledger is a list in
  insertion order and \<open>ORDER BY applied_at\<close> is read as that order.
\<close>

datatype error =
    ErrNestedTx
  | ErrLockHeld
  | ErrAcquireLock error
  | ErrStepsNotPositive
  | ErrMigration string
  | ErrDuplicateEntry string
  | ErrUpdateRecord error
  | ErrExecMigration string error
  | ErrRollbackMigration string error

record MigrationRecord =
  rec_version :: string
  rec_description :: string
  rec_success :: bool
  rec_error_msg :: string

record 'a database =
  migrations_table :: "MigrationRecord list"
  lock_locked :: bool
  lock_locked_by :: "string option"
  user_data :: 'a

text \<open>
  \<open>types.DB\<close> is an interface with two implementations: the pooled connection
  (\<open>*sql.DB\<close>) and \<open>TxWrapper\<close>, which wraps a running \<open>*sql.Tx\<close>.
\<close>

datatype sql_tx = SqlTx

datatype DB = SqlDB | TxWrapper sql_tx

fun TxWrapper_Begin :: "sql_tx \<Rightarrow> error + sql_tx" where
  "TxWrapper_Begin tx = Inl ErrNestedTx"

fun DB_Begin :: "DB \<Rightarrow> error + sql_tx" where
  "DB_Begin SqlDB = Inr SqlTx"
| "DB_Begin (TxWrapper tx) = TxWrapper_Begin tx"

text \<open>
  \<open>types.Migration\<close>: the bodies \<open>Up\<close> and \<open>Down\<close> receive a \<open>types.DB\<close> and act on the
  user's data; they return the error message, if any.  A body does not touch the
  runner's own two tables.
\<close>

record 'a Migration =
  Version :: string
  Description :: string
  Up :: "DB \<Rightarrow> 'a \<Rightarrow> string option \<times> 'a"
  Down :: "DB \<Rightarrow> 'a \<Rightarrow> string option \<times> 'a"

record 'a Migrator =
  DryRun :: bool
  migrations :: "'a Migration list"

datatype log_line =
    LogSkip string
  | LogExecute bool string
  | LogDryRun
  | LogCompleted
  | LogNotFound string

definition recordMigration ::
  "'a database \<Rightarrow> string \<Rightarrow> string \<Rightarrow> bool \<Rightarrow> string \<Rightarrow> error option \<times> 'a database" where
  "recordMigration tx version description success errorMsg =
     (if version \<in> set (map rec_version (migrations_table tx))
      then (Some (ErrDuplicateEntry version), tx)
      else (None, tx\<lparr>migrations_table := migrations_table tx @
              [\<lparr>rec_version = version, rec_description = description,
                rec_success = success, rec_error_msg = errorMsg\<rparr>]\<rparr>))"

definition removeMigrationRecord :: "'a database \<Rightarrow> string \<Rightarrow> error option \<times> 'a database" where
  "removeMigrationRecord tx version =
     (None, tx\<lparr>migrations_table := filter (\<lambda>r. rec_version r \<noteq> version) (migrations_table tx)\<rparr>)"

text \<open>
  \<open>executeMigration\<close>: the transaction works on a copy of the database; \<open>Commit\<close> makes
  the copy the database, the deferred \<open>Rollback\<close> drops it.
\<close>

definition executeMigration ::
  "'a Migrator \<Rightarrow> 'a Migration \<Rightarrow> bool \<Rightarrow> 'a database \<Rightarrow> error option \<times> log_line list \<times> 'a database" where
  "executeMigration m migration isUp s =
     (let version = Version migration; description = Description migration in
      if DryRun m then (None, [LogExecute isUp version, LogDryRun], s)
      else
        let tx = SqlTx;
            (migrationErr, data') =
               (if isUp then Up migration (TxWrapper tx) (user_data s)
                else Down migration (TxWrapper tx) (user_data s));
            s1 = s\<lparr>user_data := data'\<rparr>;
            (err, s2) =
               (if isUp then
                  (case migrationErr of
                     None \<Rightarrow> recordMigration s1 version description True []
                   | Some msg \<Rightarrow> recordMigration s1 version description False msg)
                else removeMigrationRecord s1 version)
        in case err of
             Some e \<Rightarrow> (Some (ErrUpdateRecord e), [LogExecute isUp version], s)
           | None \<Rightarrow>
               (case migrationErr of
                  Some msg \<Rightarrow> (Some (ErrMigration msg), [LogExecute isUp version], s)
                | None \<Rightarrow> (None, [LogExecute isUp version, LogCompleted], s2)))"

text \<open>
  \<open>acquireLock\<close> is the single statement
  \<open>UPDATE lock SET locked = TRUE, locked_by = ? WHERE id = 1 AND locked = FALSE\<close>; it
  fails when no row was affected.  \<open>releaseLock\<close> resets the row whatever its state.
\<close>

definition acquireLock :: "'a database \<Rightarrow> error option \<times> 'a database" where
  "acquireLock s =
     (if lock_locked s then (Some ErrLockHeld, s)
      else (None, s\<lparr>lock_locked := True, lock_locked_by := Some ''db-migrator''\<rparr>))"

definition releaseLock :: "'a database \<Rightarrow> 'a database" where
  "releaseLock s = s\<lparr>lock_locked := False, lock_locked_by := None\<rparr>"

text \<open>
  \<open>getAppliedMigrations\<close> selects the rows with \<open>success = TRUE\<close> into a map keyed by
  version (a later row overwrites an earlier one); \<open>getAppliedMigrationsOrdered\<close> returns
  them as a list, newest first for \<open>DESC\<close>.
\<close>

definition getAppliedMigrations :: "'a database \<Rightarrow> (string \<rightharpoonup> MigrationRecord)" where
  "getAppliedMigrations s =
     map_of (rev (map (\<lambda>r. (rec_version r, r)) (filter rec_success (migrations_table s))))"


text \<open>
  \<open>sortMigrations\<close> orders the registered units by version, compared as byte strings.
  Go's \<open>sort.Slice\<close> leaves the order of units with equal versions open; the model keeps
  their registration order.
\<close>

definition sortMigrations :: "'a Migration list \<Rightarrow> 'a Migration list" where
  "sortMigrations ms = sort_key Version ms"

fun up_loop ::
  "'a Migrator \<Rightarrow> (string \<rightharpoonup> MigrationRecord) \<Rightarrow> 'a Migration list \<Rightarrow> 'a database
     \<Rightarrow> error option \<times> log_line list \<times> 'a database" where
  "up_loop m applied [] s = (None, [], s)"
| "up_loop m applied (migration # rest) s =
     (if applied (Version migration) \<noteq> None then
        (case up_loop m applied rest s of
           (e, lg, s') \<Rightarrow> (e, LogSkip (Version migration) # lg, s'))
      else
        (case executeMigration m migration True s of
           (Some err, lg, s') \<Rightarrow> (Some (ErrExecMigration (Version migration) err), lg, s')
         | (None, lg, s') \<Rightarrow>
             (case up_loop m applied rest s' of
                (e, lg2, s'') \<Rightarrow> (e, lg @ lg2, s''))))"

definition Migrator_Up ::
  "'a Migrator \<Rightarrow> 'a database \<Rightarrow> error option \<times> log_line list \<times> 'a Migrator \<times> 'a database" where
  "Migrator_Up m s =
     (case acquireLock s of
        (Some e, s') \<Rightarrow> (Some (ErrAcquireLock e), [], m, s')
      | (None, s1) \<Rightarrow>
          (let m' = m\<lparr>migrations := sortMigrations (migrations m)\<rparr>;
               appliedMigrations = getAppliedMigrations s1
           in case up_loop m' appliedMigrations (migrations m') s1 of
                (err, lg, s2) \<Rightarrow> (err, lg, m', releaseLock s2)))"



subsection \<open>Sample units and databases\<close>

definition unit_ok :: "string \<Rightarrow> nat Migration" where
  "unit_ok v = \<lparr>Version = v, Description = ''add'', Up = (\<lambda>h d. (None, d + 1)),
               Down = (\<lambda>h d. (None, d - 1))\<rparr>"

definition unit_failing :: "string \<Rightarrow> nat Migration" where
  "unit_failing v = \<lparr>Version = v, Description = ''bad'', Up = (\<lambda>h d. (Some ''boom'', d + 1)),
               Down = (\<lambda>h d. (Some ''boom'', d))\<rparr>"

definition fresh_db :: "nat database" where
  "fresh_db = \<lparr>migrations_table = [], lock_locked = False, lock_locked_by = None, user_data = 0\<rparr>"


subsection \<open>Facts about the runner\<close>

text \<open>The versions the ledger records as successfully applied.\<close>

definition success_versions :: "'a database \<Rightarrow> string set" where
  "success_versions s = set (map rec_version (filter rec_success (migrations_table s)))"

lemma dom_getAppliedMigrations: "(getAppliedMigrations s v \<noteq> None) = (v \<in> success_versions s)"
  unfolding getAppliedMigrations_def success_versions_def
  by (simp add: map_of_eq_None_iff image_image)

lemma success_versions_append:
  "success_versions (s\<lparr>migrations_table := migrations_table s @ [r]\<rparr>) =
     (if rec_success r then insert (rec_version r) (success_versions s) else success_versions s)"
  by (auto simp: success_versions_def)

lemma success_versions_user_data [simp]:
  "success_versions (s\<lparr>user_data := d\<rparr>) = success_versions s"
  by (simp add: success_versions_def)

lemma recordMigration_ok:
  assumes "recordMigration tx v d True msg = (None, tx')"
  shows "success_versions tx' = insert v (success_versions tx)
         \<and> lock_locked tx' = lock_locked tx \<and> lock_locked_by tx' = lock_locked_by tx"
proof -
  from assms have "tx' = tx\<lparr>migrations_table := migrations_table tx @
      [\<lparr>rec_version = v, rec_description = d, rec_success = True, rec_error_msg = msg\<rparr>]\<rparr>"
    by (simp add: recordMigration_def split: if_splits)
  then show ?thesis by (simp add: success_versions_append)
qed

lemma executeMigration_up_ok:
  assumes "executeMigration m mig True s = (None, lg, s')" "\<not> DryRun m"
  shows "success_versions s' = insert (Version mig) (success_versions s)
         \<and> lock_locked s' = lock_locked s \<and> lock_locked_by s' = lock_locked_by s"
proof -
  obtain merr d where b: "Up mig (TxWrapper SqlTx) (user_data s) = (merr, d)"
    by (cases "Up mig (TxWrapper SqlTx) (user_data s)")
  from assms b have "merr = None"
    by (auto simp: executeMigration_def Let_def split: prod.splits option.splits)
  with assms b have "recordMigration (s\<lparr>user_data := d\<rparr>) (Version mig) (Description mig) True [] = (None, s')"
    by (auto simp: executeMigration_def Let_def split: prod.splits option.splits)
  from recordMigration_ok[OF this] show ?thesis by simp
qed

lemma up_loop_ok:
  assumes "up_loop m applied ms s = (None, lg, s')" "\<not> DryRun m"
  shows "success_versions s \<subseteq> success_versions s'
     \<and> (\<forall>mig\<in>set ms. applied (Version mig) \<noteq> None \<or> Version mig \<in> success_versions s')
     \<and> lock_locked s' = lock_locked s \<and> lock_locked_by s' = lock_locked_by s"
  using assms
proof (induction ms arbitrary: s lg)
  case Nil then show ?case by simp
next
  case (Cons mig rest)
  show ?case
  proof (cases "applied (Version mig) \<noteq> None")
    case True
    with Cons.prems obtain lg1 where "up_loop m applied rest s = (None, lg1, s')"
      by (auto split: prod.splits)
    from Cons.IH[OF this Cons.prems(2)] True show ?thesis by auto
  next
    case False
    with Cons.prems obtain lg1 s1 lg2 where
      e: "executeMigration m mig True s = (None, lg1, s1)" and
      r: "up_loop m applied rest s1 = (None, lg2, s')"
      by (auto split: prod.splits option.splits)
    from executeMigration_up_ok[OF e Cons.prems(2)] Cons.IH[OF r Cons.prems(2)]
    show ?thesis by auto
  qed
qed

text \<open>
  The log of a run of \<open>Up\<close> that executes no body: a unit whose version is applied is
  skipped, any other unit stops at the dry-run return of \<open>executeMigration\<close>.
\<close>

definition noop_log :: "(string \<Rightarrow> bool) \<Rightarrow> 'a Migration list \<Rightarrow> log_line list" where
  "noop_log applied ms =
     concat (map (\<lambda>mig. if applied (Version mig) then [LogSkip (Version mig)]
                        else [LogExecute True (Version mig), LogDryRun]) ms)"

lemma up_loop_noop:
  assumes "DryRun m \<or> (\<forall>mig\<in>set ms. applied (Version mig) \<noteq> None)"
  shows "up_loop m applied ms s = (None, noop_log (\<lambda>v. applied v \<noteq> None) ms, s)"
  using assms
  by (induction ms) (auto simp: noop_log_def executeMigration_def Let_def)

lemma sortMigrations_idem: "sortMigrations (sortMigrations ms) = sortMigrations ms"
  unfolding sortMigrations_def by (simp add: sort_key_id_if_sorted)

text \<open>
  A forward unit whose body fails: the error is returned and the database is the one
  before the transaction, whatever the body and \<open>recordMigration\<close> wrote inside it.
\<close>

lemma failed_up_is_rolled_back:
  assumes "\<not> DryRun m" and "fst (Up mig (TxWrapper SqlTx) (user_data s)) = Some msg"
  shows "fst (executeMigration m mig True s) \<noteq> None
         \<and> snd (snd (executeMigration m mig True s)) = s"
  using assms
  by (cases "Up mig (TxWrapper SqlTx) (user_data s)")
     (auto simp: executeMigration_def Let_def split: prod.splits option.splits)

section \<open>Idempotence of Up\<close>

text \<open>
  C3.  After a run of \<open>Up\<close> that returned no error, a second run on the resulting
  migrator and database returns no error, leaves the database exactly as it was, and
  executes no body: its log is \<open>noop_log\<close>, and outside dry-run mode every registered
  version is recorded as applied, so every unit is skipped.
\<close>

theorem Up_twice_is_noop:
  assumes "Migrator_Up m s = (None, lg, m', s')"
  shows "Migrator_Up m' s' = (None, noop_log (\<lambda>v. v \<in> success_versions s') (migrations m'), m', s')
         \<and> (\<not> DryRun m \<longrightarrow> (\<forall>mig\<in>set (migrations m'). Version mig \<in> success_versions s'))"
proof -
  from assms have unl: "\<not> lock_locked s"
    by (auto simp: Migrator_Up_def acquireLock_def split: if_splits)
  define s1 where "s1 = s\<lparr>lock_locked := True, lock_locked_by := Some ''db-migrator''\<rparr>"
  have acq: "acquireLock s = (None, s1)"
    using unl by (simp add: acquireLock_def s1_def)
  define ms where "ms = sortMigrations (migrations m)"
  from assms acq have m': "m' = m\<lparr>migrations := ms\<rparr>"
    by (auto simp: Migrator_Up_def Let_def ms_def split: prod.splits)
  from assms acq obtain s2 where
    loop: "up_loop m' (getAppliedMigrations s1) ms s1 = (None, lg, s2)" and s': "s' = releaseLock s2"
    by (auto simp: Migrator_Up_def Let_def ms_def m' split: prod.splits)
  have dry: "DryRun m' = DryRun m" by (simp add: m')
  have sv': "success_versions s' = success_versions s2"
    by (simp add: s' releaseLock_def success_versions_def)
  have all: "\<forall>mig\<in>set ms. Version mig \<in> success_versions s'" if "\<not> DryRun m"
  proof -
    from up_loop_ok[OF loop] that dry
    have "\<forall>mig\<in>set ms. getAppliedMigrations s1 (Version mig) \<noteq> None \<or> Version mig \<in> success_versions s2"
      and "success_versions s1 \<subseteq> success_versions s2" by auto
    then show ?thesis unfolding sv' dom_getAppliedMigrations by auto
  qed
  define t1 where "t1 = s'\<lparr>lock_locked := True, lock_locked_by := Some ''db-migrator''\<rparr>"
  have acq': "acquireLock s' = (None, t1)"
    by (simp add: acquireLock_def t1_def s' releaseLock_def)
  have rel: "releaseLock t1 = s'"
    by (simp add: t1_def s' releaseLock_def)
  have svt: "success_versions t1 = success_versions s'"
    by (simp add: t1_def success_versions_def)
  have mms: "migrations m' = ms" by (simp add: m')
  have sorted: "sortMigrations ms = ms"
    by (simp add: ms_def sortMigrations_idem)
  have mm: "m'\<lparr>migrations := ms\<rparr> = m'" by (simp add: m')
  have "DryRun m' \<or> (\<forall>mig\<in>set ms. getAppliedMigrations t1 (Version mig) \<noteq> None)"
    using all dry unfolding dom_getAppliedMigrations svt by auto
  from up_loop_noop[OF this, of t1]
  have loop2: "up_loop m' (getAppliedMigrations t1) ms t1 =
      (None, noop_log (\<lambda>v. v \<in> success_versions s') ms, t1)"
    unfolding dom_getAppliedMigrations svt .
  have "Migrator_Up m' s' = (None, noop_log (\<lambda>v. v \<in> success_versions s') ms, m', s')"
    by (simp add: Migrator_Up_def acq' Let_def mms sorted mm loop2 rel)
  then show ?thesis using all mms by simp
qed

theorem Up_twice_is_noop_witness:
  "Migrator_Up \<lparr>DryRun = False, migrations = [unit_ok ''002'', unit_ok ''001'']\<rparr> fresh_db =
     (None, [LogExecute True ''001'', LogCompleted, LogExecute True ''002'', LogCompleted],
      \<lparr>DryRun = False, migrations = [unit_ok ''001'', unit_ok ''002'']\<rparr>,
      fresh_db\<lparr>migrations_table :=
         [\<lparr>rec_version = ''001'', rec_description = ''add'', rec_success = True, rec_error_msg = []\<rparr>,
          \<lparr>rec_version = ''002'', rec_description = ''add'', rec_success = True, rec_error_msg = []\<rparr>],
         user_data := 2\<rparr>)
   \<and> Migrator_Up \<lparr>DryRun = False, migrations = [unit_ok ''001'', unit_ok ''002'']\<rparr>
       (fresh_db\<lparr>migrations_table :=
         [\<lparr>rec_version = ''001'', rec_description = ''add'', rec_success = True, rec_error_msg = []\<rparr>,
          \<lparr>rec_version = ''002'', rec_description = ''add'', rec_success = True, rec_error_msg = []\<rparr>],
         user_data := 2\<rparr>) =
     (None, [LogSkip ''001'', LogSkip ''002''],
      \<lparr>DryRun = False, migrations = [unit_ok ''001'', unit_ok ''002'']\<rparr>,
      fresh_db\<lparr>migrations_table :=
         [\<lparr>rec_version = ''001'', rec_description = ''add'', rec_success = True, rec_error_msg = []\<rparr>,
          \<lparr>rec_version = ''002'', rec_description = ''add'', rec_success = True, rec_error_msg = []\<rparr>],
         user_data := 2\<rparr>)"
proof -
  have first:
    "Migrator_Up \<lparr>DryRun = False, migrations = [unit_ok ''002'', unit_ok ''001'']\<rparr> fresh_db =
     (None, [LogExecute True ''001'', LogCompleted, LogExecute True ''002'', LogCompleted],
      \<lparr>DryRun = False, migrations = [unit_ok ''001'', unit_ok ''002'']\<rparr>,
      fresh_db\<lparr>migrations_table :=
         [\<lparr>rec_version = ''001'', rec_description = ''add'', rec_success = True, rec_error_msg = []\<rparr>,
          \<lparr>rec_version = ''002'', rec_description = ''add'', rec_success = True, rec_error_msg = []\<rparr>],
         user_data := 2\<rparr>)"
    by (simp add: Migrator_Up_def acquireLock_def fresh_db_def Let_def sortMigrations_def
        unit_ok_def getAppliedMigrations_def executeMigration_def recordMigration_def
        releaseLock_def)
  from Up_twice_is_noop [OF first] first show ?thesis
    by (simp add: noop_log_def success_versions_def fresh_db_def unit_ok_def)
qed

section \<open>Failure of a forward migration\<close>

text \<open>
  C2.  A forward run over the units \<open>002\<close> (sound) and \<open>001\<close> (its body fails) on a fresh
  database.  The error of \<open>001\<close> is propagated and \<open>002\<close> is never attempted, but the
  ledger row written for the failure is written inside the transaction that the deferred
  \<open>Rollback\<close> then drops: the ledger is as empty as before.
\<close>

theorem failed_up_leaves_no_ledger_row:
  "Migrator_Up \<lparr>DryRun = False, migrations = [unit_ok ''002'', unit_failing ''001'']\<rparr> fresh_db =
     (Some (ErrExecMigration ''001'' (ErrMigration ''boom'')), [LogExecute True ''001''],
      \<lparr>DryRun = False, migrations = [unit_failing ''001'', unit_ok ''002'']\<rparr>,
      fresh_db)
   \<and> migrations_table fresh_db = []"
  by (simp add: Migrator_Up_def acquireLock_def fresh_db_def Let_def sortMigrations_def
      unit_ok_def unit_failing_def getAppliedMigrations_def executeMigration_def
      recordMigration_def releaseLock_def)

section \<open>The migration lock\<close>




section \<open>Nested transactions\<close>

text \<open>
  C10.  Inside a migration transaction the body is handed a \<open>TxWrapper\<close>, and \<open>Begin\<close> on a
  \<open>TxWrapper\<close> always returns an error: \<open>executeMigration\<close> behaves the same when each
  body is replaced by its restriction to the \<open>TxWrapper\<close> handle, and \<open>Begin\<close> on that
  handle never yields a transaction.
\<close>

theorem TxWrapper_Begin_always_fails:
  "DB_Begin (TxWrapper tx) = Inl ErrNestedTx
   \<and> executeMigration m mig isUp s =
       executeMigration m (mig\<lparr>Up := \<lambda>h. Up mig (TxWrapper SqlTx),
                               Down := \<lambda>h. Down mig (TxWrapper SqlTx)\<rparr>) isUp s"
  by (simp add: executeMigration_def Let_def)

section \<open>Strings and machine integers of the Go runtime\<close>

text \<open>
  Go's \<open>int\<close> is a 64-bit two's-complement integer: \<open>wrap64\<close> is the wrap-around of its
  arithmetic and \<open>go_quot\<close> its division, which truncates towards zero.  Strings are byte
  strings; \<open>ToLower\<close> maps the ASCII letters only.
\<close>

definition wrap64 :: "int \<Rightarrow> int" where
  "wrap64 x = (x + 2 ^ 63) mod 2 ^ 64 - 2 ^ 63"

definition go_quot :: "int \<Rightarrow> int \<Rightarrow> int" where
  "go_quot a b = wrap64 (sgn a * sgn b * (\<bar>a\<bar> div \<bar>b\<bar>))"

definition toLowerChar :: "char \<Rightarrow> char" where
  "toLowerChar c =
     (case map_of (zip ''ABCDEFGHIJKLMNOPQRSTUVWXYZ'' ''abcdefghijklmnopqrstuvwxyz'') c of
        Some l \<Rightarrow> l | None \<Rightarrow> c)"

definition ToLower :: "string \<Rightarrow> string" where
  "ToLower s = map toLowerChar s"

fun HasPrefix :: "string \<Rightarrow> string \<Rightarrow> bool" where
  "HasPrefix s [] = True"
| "HasPrefix [] (p # ps) = False"
| "HasPrefix (c # cs) (p # ps) = (c = p \<and> HasPrefix cs ps)"

fun Contains :: "string \<Rightarrow> string \<Rightarrow> bool" where
  "Contains [] sub = (sub = [])"
| "Contains (c # cs) sub = (HasPrefix (c # cs) sub \<or> Contains cs sub)"

section \<open>Batch data loader (internal/database/inserter.go)\<close>

text \<open>
  The target database is a value of an arbitrary type \<open>'db\<close>, reached through a driver:
  \<open>tableExists\<close> answers the catalogue query of \<open>checkTableExists\<close>, \<open>execContext\<close> runs one
  statement and returns the driver's error message, if any, with the database after it.
  Connection failures are outside the model.  The text built by \<open>buildBatchInsertSQL\<close> is
  kept structured: table, columns and the rows of the batch.
\<close>

datatype insert_error =
    PanicDivideByZero
  | PanicSliceBounds
  | ErrBatch int string
  | ErrExecInsert string int insert_error
  | ErrTableNotExist string
  | ErrParse string
  | ErrNoStatements
  | ErrNoValidInsert
  | ErrMissingTableName int
  | ErrMissingValues int
  | ErrColumnCount int int int int
  | ErrParseFailed insert_error
  | ErrValidateFailed insert_error
  | ErrTableCheckFailed insert_error
  | ErrExecuteFailed insert_error

record 'v InsertStatement =
  TableName :: string
  Columns :: "string list"
  Values :: "'v list list"
  StatementText :: string
  LineNumber :: int

record DataInsertConfig =
  BatchSize :: int
  OnConflict :: string
  StopOnError :: bool
  ValidateTables :: bool
  UseTransaction :: bool

datatype 'v batch_sql = BatchInsert string "string list" "'v list list"


record ('v, 'db) driver =
  tableExists :: "'db \<Rightarrow> string \<Rightarrow> bool"
  execContext :: "'v batch_sql \<Rightarrow> 'db \<Rightarrow> string option \<times> 'db"

datatype TableInsertResult = TableInsertResult string int int

record DataInsertResult =
  DatabaseName :: string
  TotalStatements :: int
  SuccessfulStatements :: int
  FailedStatements :: int
  TotalRowsInserted :: int
  TableResults :: "TableInsertResult list"
  Errors :: "insert_error list"

definition buildBatchInsertSQL :: "string \<Rightarrow> string list \<Rightarrow> 'v list list \<Rightarrow> 'v batch_sql" where
  "buildBatchInsertSQL tableName columns vals = BatchInsert tableName columns vals"

definition isDuplicateKeyError :: "string option \<Rightarrow> bool" where
  "isDuplicateKeyError err =
     (case err of
        None \<Rightarrow> False
      | Some msg \<Rightarrow>
          (let errStr = ToLower msg in
           Contains errStr ''duplicate entry'' \<or> Contains errStr ''duplicate key''
           \<or> Contains errStr ''unique constraint''))"

text \<open>
  The bounds of batch \<open>batchIndex\<close>: \<open>start\<close> and \<open>end\<close> as the loop body computes them, or
  \<open>None\<close> where the slice expression \<open>stmt.Values[start:end]\<close> panics.
\<close>

definition batch_bounds :: "int \<Rightarrow> int \<Rightarrow> int \<Rightarrow> (int \<times> int) option" where
  "batch_bounds n batchSize batchIndex =
     (let start = wrap64 (batchIndex * batchSize);
          end0 = wrap64 (start + batchSize);
          end1 = (if end0 > n then n else end0)
      in if start < 0 \<or> end1 < start then None else Some (start, end1))"

definition slice :: "'a list \<Rightarrow> int \<Rightarrow> int \<Rightarrow> 'a list" where
  "slice xs start end1 = take (nat (end1 - start)) (drop (nat start) xs)"

function batch_loop ::
  "('v batch_sql \<Rightarrow> 'db \<Rightarrow> string option \<times> 'db) \<Rightarrow> 'v InsertStatement \<Rightarrow> DataInsertConfig
     \<Rightarrow> int \<Rightarrow> int \<Rightarrow> 'db \<Rightarrow> insert_error option \<times> 'v batch_sql list \<times> 'db" where
  "batch_loop exec stmt config totalBatches batchIndex db =
     (if batchIndex < totalBatches then
        (case batch_bounds (int (length (Values stmt))) (BatchSize config) batchIndex of
           None \<Rightarrow> (Some PanicSliceBounds, [], db)
         | Some (start, end1) \<Rightarrow>
             (let batchValues = slice (Values stmt) start end1;
                  batchSQL = buildBatchInsertSQL (TableName stmt) (Columns stmt) batchValues
              in case exec batchSQL db of
                   (None, db') \<Rightarrow>
                     (case batch_loop exec stmt config totalBatches (batchIndex + 1) db' of
                        (e, calls, db'') \<Rightarrow> (e, batchSQL # calls, db''))
                 | (Some msg, db') \<Rightarrow>
                     (if isDuplicateKeyError (Some msg) \<and> OnConflict config = ''ignore'' then
                        (case batch_loop exec stmt config totalBatches (batchIndex + 1) db' of
                           (e, calls, db'') \<Rightarrow> (e, batchSQL # calls, db''))
                      else (Some (ErrBatch (batchIndex + 1) msg), [batchSQL], db'))))
      else (None, [], db))"
  by pat_completeness auto
termination
  by (relation "measure (\<lambda>(exec, stmt, config, totalBatches, batchIndex, db).
                  nat (totalBatches - batchIndex))") auto

text \<open>
  \<open>executeBatchInsertDB\<close> and \<open>executeBatchInsert\<close> are the same loop, the first on the
  connection and the second on the transaction; both reach the database through \<open>exec\<close>.
  The second component of the result lists the statements handed to \<open>ExecContext\<close>.
\<close>

definition executeBatchInsertDB ::
  "('v batch_sql \<Rightarrow> 'db \<Rightarrow> string option \<times> 'db) \<Rightarrow> 'v InsertStatement \<Rightarrow> DataInsertConfig
     \<Rightarrow> 'db \<Rightarrow> insert_error option \<times> 'v batch_sql list \<times> 'db" where
  "executeBatchInsertDB exec stmt config db =
     (let batchSize = BatchSize config in
      if batchSize = 0 then (Some PanicDivideByZero, [], db)
      else
        let totalBatches =
              go_quot (wrap64 (wrap64 (int (length (Values stmt)) + batchSize) - 1)) batchSize
        in batch_loop exec stmt config totalBatches 0 db)"

definition executeBatchInsert ::
  "('v batch_sql \<Rightarrow> 'db \<Rightarrow> string option \<times> 'db) \<Rightarrow> 'v InsertStatement \<Rightarrow> DataInsertConfig
     \<Rightarrow> 'db \<Rightarrow> insert_error option \<times> 'v batch_sql list \<times> 'db" where
  "executeBatchInsert exec stmt config tx = executeBatchInsertDB exec stmt config tx"

definition executeInsertStatement ::
  "('v batch_sql \<Rightarrow> 'db \<Rightarrow> string option \<times> 'db) \<Rightarrow> 'v InsertStatement \<Rightarrow> DataInsertConfig
     \<Rightarrow> 'db \<Rightarrow> insert_error option \<times> 'v batch_sql list \<times> 'db" where
  "executeInsertStatement exec stmt config tx = executeBatchInsert exec stmt config tx"

definition executeInsertStatementDB ::
  "('v batch_sql \<Rightarrow> 'db \<Rightarrow> string option \<times> 'db) \<Rightarrow> 'v InsertStatement \<Rightarrow> DataInsertConfig
     \<Rightarrow> 'db \<Rightarrow> insert_error option \<times> 'v batch_sql list \<times> 'db" where
  "executeInsertStatementDB exec stmt config db = executeBatchInsertDB exec stmt config db"

fun insert_loop ::
  "('v, 'db) driver \<Rightarrow> DataInsertConfig \<Rightarrow> 'v InsertStatement list \<Rightarrow> 'db
     \<Rightarrow> insert_error option \<times> 'v batch_sql list \<times> 'db" where
  "insert_loop drv config [] db = (None, [], db)"
| "insert_loop drv config (stmt # rest) db =
     (case (if UseTransaction config then executeInsertStatement (execContext drv) stmt config db
            else executeInsertStatementDB (execContext drv) stmt config db) of
        (Some execErr, calls, db') \<Rightarrow>
          (if StopOnError config then
             (Some (ErrExecInsert (TableName stmt) (LineNumber stmt) execErr), calls, db')
           else
             (case insert_loop drv config rest db' of
                (e, calls2, db'') \<Rightarrow> (e, calls @ calls2, db'')))
      | (None, calls, db') \<Rightarrow>
          (case insert_loop drv config rest db' of
             (e, calls2, db'') \<Rightarrow> (e, calls @ calls2, db'')))"

text \<open>
  \<open>ExecuteInsertStatements\<close>: with \<open>UseTransaction\<close> the statements run in one transaction,
  committed at the end; an early return leaves it to the deferred \<open>Rollback\<close>.
\<close>

definition ExecuteInsertStatements ::
  "('v, 'db) driver \<Rightarrow> 'v InsertStatement list \<Rightarrow> DataInsertConfig \<Rightarrow> 'db
     \<Rightarrow> insert_error option \<times> 'v batch_sql list \<times> 'db" where
  "ExecuteInsertStatements drv statements config db =
     (case insert_loop drv config statements db of
        (Some e, calls, db') \<Rightarrow> (Some e, calls, if UseTransaction config then db else db')
      | (None, calls, db') \<Rightarrow> (None, calls, db'))"

fun ValidateTablesExist :: "('v, 'db) driver \<Rightarrow> 'db \<Rightarrow> string list \<Rightarrow> insert_error option" where
  "ValidateTablesExist drv db [] = None"
| "ValidateTablesExist drv db (tableName # rest) =
     (if \<not> tableExists drv db tableName then Some (ErrTableNotExist tableName)
      else ValidateTablesExist drv db rest)"

subsection \<open>The parser's helpers used by the loader (internal/sqlparser/insert_parser.go)\<close>

fun check_rows :: "int \<Rightarrow> int \<Rightarrow> int \<Rightarrow> 'v list list \<Rightarrow> insert_error option" where
  "check_rows i j ncols [] = None"
| "check_rows i j ncols (vals # rest) =
     (if int (length vals) \<noteq> ncols then Some (ErrColumnCount (i + 1) (j + 1) ncols (int (length vals)))
      else check_rows i (j + 1) ncols rest)"

fun validate_loop :: "int \<Rightarrow> 'v InsertStatement list \<Rightarrow> insert_error option" where
  "validate_loop i [] = None"
| "validate_loop i (stmt # rest) =
     (if TableName stmt = [] then Some (ErrMissingTableName (i + 1))
      else if Values stmt = [] then Some (ErrMissingValues (i + 1))
      else
        (case (if Columns stmt \<noteq> [] then check_rows i 0 (int (length (Columns stmt))) (Values stmt)
               else None) of
           Some e \<Rightarrow> Some e
         | None \<Rightarrow> validate_loop (i + 1) rest))"

definition ValidateInsertStatements :: "'v InsertStatement list \<Rightarrow> insert_error option" where
  "ValidateInsertStatements statements =
     (if statements = [] then Some ErrNoValidInsert else validate_loop 0 statements)"

fun extract_loop :: "string list \<Rightarrow> 'v InsertStatement list \<Rightarrow> string list" where
  "extract_loop tables [] = tables"
| "extract_loop tables (stmt # rest) =
     (if TableName stmt \<in> set tables then extract_loop tables rest
      else extract_loop (tables @ [TableName stmt]) rest)"

definition ExtractTableNames :: "'v InsertStatement list \<Rightarrow> string list" where
  "ExtractTableNames statements = extract_loop [] statements"

subsection \<open>InsertFromSQLFile\<close>

text \<open>
  The per-table statistics are gathered in a map keyed by table name and then copied to
  \<open>TableResults\<close> by ranging over the map.  Go leaves the order of that range open: the
  model takes it as the argument \<open>order\<close>, a list of the map's keys.
\<close>

definition stats_step ::
  "(string \<rightharpoonup> TableInsertResult) \<Rightarrow> 'v InsertStatement \<Rightarrow> (string \<rightharpoonup> TableInsertResult)" where
  "stats_step tableStats stmt =
     (case (case tableStats (TableName stmt) of
              None \<Rightarrow> TableInsertResult (TableName stmt) 0 0
            | Some r \<Rightarrow> r) of
        TableInsertResult name rowsInserted statementsExecuted \<Rightarrow>
          tableStats(TableName stmt \<mapsto>
            TableInsertResult name (rowsInserted + int (length (Values stmt)))
              (statementsExecuted + 1)))"

definition table_stats :: "'v InsertStatement list \<Rightarrow> (string \<rightharpoonup> TableInsertResult)" where
  "table_stats statements = foldl stats_step Map.empty statements"

fun rows_inserted :: "TableInsertResult \<Rightarrow> int" where
  "rows_inserted (TableInsertResult name rowsInserted statementsExecuted) = rowsInserted"

definition empty_result :: "string \<Rightarrow> DataInsertResult" where
  "empty_result dbName =
     \<lparr>DatabaseName = dbName, TotalStatements = 0, SuccessfulStatements = 0,
      FailedStatements = 0, TotalRowsInserted = 0, TableResults = [], Errors = []\<rparr>"

definition InsertFromSQLFile ::
  "('v, 'db) driver \<Rightarrow> string list \<Rightarrow> string \<Rightarrow> insert_error + 'v InsertStatement list
     \<Rightarrow> DataInsertConfig \<Rightarrow> 'db
     \<Rightarrow> DataInsertResult \<times> insert_error option \<times> 'v batch_sql list \<times> 'db" where
  "InsertFromSQLFile drv order dbName parsed config db =
     (let result = empty_result dbName in
      case parsed of
        Inl err \<Rightarrow> (result\<lparr>Errors := [ErrParseFailed err]\<rparr>, Some err, [], db)
      | Inr statements \<Rightarrow>
          (let result = result\<lparr>TotalStatements := int (length statements)\<rparr> in
           if statements = [] then (result, Some ErrNoStatements, [], db)
           else
             (case ValidateInsertStatements statements of
                Some err \<Rightarrow> (result\<lparr>Errors := [ErrValidateFailed err]\<rparr>, Some err, [], db)
              | None \<Rightarrow>
                  (case (if ValidateTables config
                         then ValidateTablesExist drv db (ExtractTableNames statements)
                         else None) of
                     Some err \<Rightarrow> (result\<lparr>Errors := [ErrTableCheckFailed err]\<rparr>, Some err, [], db)
                   | None \<Rightarrow>
                       (case ExecuteInsertStatements drv statements config db of
                          (Some err, calls, db') \<Rightarrow>
                            (result\<lparr>FailedStatements := TotalStatements result,
                                    Errors := [ErrExecuteFailed err]\<rparr>, Some err, calls, db')
                        | (None, calls, db') \<Rightarrow>
                            (let tableResults = List.map_filter (table_stats statements) order in
                             (result\<lparr>SuccessfulStatements := TotalStatements result,
                                     TableResults := tableResults,
                                     TotalRowsInserted := sum_list (map rows_inserted tableResults)\<rparr>,
                              None, calls, db')))))))"

subsection \<open>Sample statements, configuration and drivers\<close>

text \<open>
  The sample database is the list of the statements it has executed.  \<open>exec_ok\<close> accepts
  every statement, \<open>exec_down\<close> fails every statement with an error that is no duplicate-key
  error.
\<close>

definition exec_ok :: "nat batch_sql \<Rightarrow> nat batch_sql list \<Rightarrow> string option \<times> nat batch_sql list" where
  "exec_ok b d = (None, d @ [b])"


definition three_rows :: "nat InsertStatement" where
  "three_rows = \<lparr>TableName = ''table1'', Columns = [''id''], Values = [[1], [2], [3]],
                 StatementText = ''INSERT INTO table1 (id) VALUES (1), (2), (3)'', LineNumber = 1\<rparr>"

definition five_rows :: "nat InsertStatement" where
  "five_rows = \<lparr>TableName = ''table2'', Columns = [''id''], Values = [[1], [2], [3], [4], [5]],
                 StatementText = ''INSERT INTO table2 (id) VALUES (1), (2), (3), (4), (5)'', LineNumber = 2\<rparr>"

definition batch2_ignore :: DataInsertConfig where
  "batch2_ignore = \<lparr>BatchSize = 2, OnConflict = ''ignore'', StopOnError = True,
                     ValidateTables = True, UseTransaction = True\<rparr>"

definition drv_present :: "(nat, nat batch_sql list) driver" where
  "drv_present = \<lparr>tableExists = (\<lambda>d t. t = ''table1'' \<or> t = ''table2''), execContext = exec_ok\<rparr>"

definition drv_absent :: "(nat, nat batch_sql list) driver" where
  "drv_absent = \<lparr>tableExists = (\<lambda>d t. False), execContext = exec_ok\<rparr>"


subsection \<open>Facts about the batch loop\<close>

declare batch_loop.simps [simp del]













lemma ValidateTablesExist_find:
  "ValidateTablesExist drv db tables =
     (case find (\<lambda>t. \<not> tableExists drv db t) tables of
        None \<Rightarrow> None | Some t \<Rightarrow> Some (ErrTableNotExist t))"
  by (induction tables) auto

section \<open>Batches of an insert statement\<close>




text \<open>
  Why the bound on \<open>R + B - 1\<close>: with 3 rows and the largest batch size of a 64-bit
  integer the sum wraps around, the number of batches comes out negative and no call is
  issued at all.
\<close>

lemma batch_size_overflow_example:
  "executeBatchInsertDB exec_ok three_rows
     (batch2_ignore\<lparr>BatchSize := 2 ^ 63 - 1\<rparr>) [] = (None, [], [])"
  by (simp add: executeBatchInsertDB_def three_rows_def batch2_ignore_def go_quot_def wrap64_def
      Let_def batch_loop.simps)

section \<open>Validation of the referenced tables\<close>

text \<open>
  C8, as the code has it.  With table validation on, valid statements and some
  referenced table missing, \<open>InsertFromSQLFile\<close> fails before any insert is executed and
  leaves the database untouched; the error names the first missing table, in the order
  in which the tables first appear in the file, and no other.
\<close>

theorem missing_table_stops_before_insert:
  assumes "ValidateTables config" and "ValidateInsertStatements statements = None"
    and "find (\<lambda>t. \<not> tableExists drv db t) (ExtractTableNames statements) = Some t"
  shows "InsertFromSQLFile drv order dbName (Inr statements) config db =
           (empty_result dbName\<lparr>TotalStatements := int (length statements),
                                  Errors := [ErrTableCheckFailed (ErrTableNotExist t)]\<rparr>,
            Some (ErrTableNotExist t), [], db)"
proof -
  from assms(2) have "statements \<noteq> []"
    by (auto simp: ValidateInsertStatements_def)
  then show ?thesis
    using assms by (simp add: InsertFromSQLFile_def Let_def ValidateTablesExist_find)
qed

theorem missing_table_stops_before_insert_witness:
  "InsertFromSQLFile drv_absent [] ''shop'' (Inr [three_rows, five_rows]) batch2_ignore [] =
     (empty_result ''shop''\<lparr>TotalStatements := 2,
                            Errors := [ErrTableCheckFailed (ErrTableNotExist ''table1'')]\<rparr>,
      Some (ErrTableNotExist ''table1''), [], [])"
proof -
  have a: "ValidateTables batch2_ignore" by (simp add: batch2_ignore_def)
  have b: "ValidateInsertStatements [three_rows, five_rows] = None" by code_simp
  have c: "find (\<lambda>t. \<not> tableExists drv_absent [] t) (ExtractTableNames [three_rows, five_rows])
             = Some ''table1''" by code_simp
  from missing_table_stops_before_insert [OF a b c] show ?thesis by simp
qed

text \<open>
  Both tables of the sample file are missing; the error names \<open>table1\<close> alone.
\<close>

theorem first_missing_table_only_counterexample:
  "\<not> tableExists drv_absent [] ''table1'' \<and> \<not> tableExists drv_absent [] ''table2''
   \<and> ExtractTableNames [three_rows, five_rows] = [''table1'', ''table2'']
   \<and> fst (snd (InsertFromSQLFile drv_absent [] ''shop'' (Inr [three_rows, five_rows]) batch2_ignore []))
        = Some (ErrTableNotExist ''table1'')"
  by code_simp

section \<open>The result summary of a load\<close>

text \<open>
  C7, as the code has it.  A file with one statement of 3 rows for \<open>table1\<close> and one of 5
  rows for \<open>table2\<close>, batch size 2, conflict policy \<open>ignore\<close>: five batches are executed,
  and the summary reports 3 rows and 1 statement for \<open>table1\<close>, 5 rows and 1 statement for
  \<open>table2\<close>, in whichever order the statistics map is ranged over.  \<open>StatementsExecuted\<close>
  counts the INSERT statements of the file, not the batches.
\<close>

theorem two_tables_summary:
  "InsertFromSQLFile drv_present [''table1'', ''table2''] ''shop'' (Inr [three_rows, five_rows])
      batch2_ignore [] =
     (\<lparr>DatabaseName = ''shop'', TotalStatements = 2, SuccessfulStatements = 2,
       FailedStatements = 0, TotalRowsInserted = 8,
       TableResults = [TableInsertResult ''table1'' 3 1, TableInsertResult ''table2'' 5 1],
       Errors = []\<rparr>,
      None,
      [BatchInsert ''table1'' [''id''] [[1], [2]], BatchInsert ''table1'' [''id''] [[3]],
       BatchInsert ''table2'' [''id''] [[1], [2]], BatchInsert ''table2'' [''id''] [[3], [4]],
       BatchInsert ''table2'' [''id''] [[5]]],
      [BatchInsert ''table1'' [''id''] [[1], [2]], BatchInsert ''table1'' [''id''] [[3]],
       BatchInsert ''table2'' [''id''] [[1], [2]], BatchInsert ''table2'' [''id''] [[3], [4]],
       BatchInsert ''table2'' [''id''] [[5]]])
   \<and> TableResults (fst (InsertFromSQLFile drv_present [''table2'', ''table1''] ''shop''
         (Inr [three_rows, five_rows]) batch2_ignore [])) =
       [TableInsertResult ''table2'' 5 1, TableInsertResult ''table1'' 3 1]"
  by code_simp

text \<open>The summary holds no entry with 2 statements for \<open>table1\<close> or 3 for \<open>table2\<close>.\<close>

theorem two_tables_summary_counterexample:
  "TableInsertResult ''table1'' 3 2 \<notin> set (TableResults (fst (InsertFromSQLFile drv_present
       [''table1'', ''table2''] ''shop'' (Inr [three_rows, five_rows]) batch2_ignore [])))
   \<and> TableInsertResult ''table2'' 5 3 \<notin> set (TableResults (fst (InsertFromSQLFile drv_present
       [''table1'', ''table2''] ''shop'' (Inr [three_rows, five_rows]) batch2_ignore [])))"
  by code_simp

section \<open>Dependency resolver (internal/sqlparser)\<close>

text \<open>
  \<open>SortByDependencies\<close> builds three Go maps keyed by statement name (the adjacency
  lists \<open>graph\<close>, the counters \<open>inDegree\<close> and \<open>stmtMap\<close>), runs Kahn's algorithm on them and
  then sorts the result with \<open>sort.Slice\<close>.  The counters stay far below the 64-bit range
  (they count dependencies held in memory), so they are plain integers.
\<close>

datatype resolve_error = ErrCycle

record SQLStatement =
  Type :: string
  Name :: string
  Statement :: string
  Dependencies :: "string list"

text \<open>Go maps as association lists; reading an absent key yields the zero value.\<close>

definition deg :: "(string \<times> int) list \<Rightarrow> string \<Rightarrow> int" where
  "deg inDegree k = (case map_of inDegree k of None \<Rightarrow> 0 | Some v \<Rightarrow> v)"

definition adj :: "(string \<times> string list) list \<Rightarrow> string \<Rightarrow> string list" where
  "adj graph k = (case map_of graph k of None \<Rightarrow> [] | Some v \<Rightarrow> v)"

definition zero_statement :: SQLStatement where
  "zero_statement = \<lparr>Type = [], Name = [], Statement = [], Dependencies = []\<rparr>"

definition stmt_at :: "(string \<times> SQLStatement) list \<Rightarrow> string \<Rightarrow> SQLStatement" where
  "stmt_at stmtMap k = (case map_of stmtMap k of None \<Rightarrow> zero_statement | Some s \<Rightarrow> s)"

definition init_step ::
  "SQLStatement \<Rightarrow> (string \<times> string list) list \<times> (string \<times> int) list \<times> (string \<times> SQLStatement) list
     \<Rightarrow> (string \<times> string list) list \<times> (string \<times> int) list \<times> (string \<times> SQLStatement) list" where
  "init_step stmt maps =
     (case maps of (graph, inDegree, stmtMap) \<Rightarrow>
        (AList.update (Name stmt) [] graph, AList.update (Name stmt) 0 inDegree,
         AList.update (Name stmt) stmt stmtMap))"

definition add_dep ::
  "(string \<times> SQLStatement) list \<Rightarrow> string \<Rightarrow> string
     \<Rightarrow> (string \<times> string list) list \<times> (string \<times> int) list
     \<Rightarrow> (string \<times> string list) list \<times> (string \<times> int) list" where
  "add_dep stmtMap name dep maps =
     (case maps of (graph, inDegree) \<Rightarrow>
        if map_of stmtMap dep \<noteq> None
        then (AList.update dep (adj graph dep @ [name]) graph,
              AList.update name (deg inDegree name + 1) inDegree)
        else (graph, inDegree))"

definition add_deps ::
  "(string \<times> SQLStatement) list \<Rightarrow> SQLStatement
     \<Rightarrow> (string \<times> string list) list \<times> (string \<times> int) list
     \<Rightarrow> (string \<times> string list) list \<times> (string \<times> int) list" where
  "add_deps stmtMap stmt maps = fold (add_dep stmtMap (Name stmt)) (Dependencies stmt) maps"

fun relax ::
  "string list \<Rightarrow> (string \<times> int) list \<Rightarrow> string list \<Rightarrow> (string \<times> int) list \<times> string list" where
  "relax [] inDegree queue = (inDegree, queue)"
| "relax (neighbor # rest) inDegree queue =
     (let inDegree' = AList.update neighbor (deg inDegree neighbor - 1) inDegree in
      if deg inDegree' neighbor = 0 then relax rest inDegree' (queue @ [neighbor])
      else relax rest inDegree' queue)"

text \<open>The number of counters that are positive; it bounds the pushes still to come.\<close>

definition npos :: "(string \<times> int) list \<Rightarrow> nat" where
  "npos inDegree = length (filter (\<lambda>(k, v). 0 < v) inDegree)"

lemma deg_update [simp]: "deg (AList.update k v d) n = (if n = k then v else deg d n)"
  by (simp add: deg_def update_conv')

lemma npos_decrement:
  "npos (AList.update k (deg d k - 1) d) = (if deg d k = 1 then npos d - 1 else npos d)
   \<and> (deg d k = 1 \<longrightarrow> 1 \<le> npos d)"
  by (induction d) (auto simp: npos_def deg_def)

lemma relax_measure:
  "relax ns d q = (d', q') \<Longrightarrow> 2 * npos d' + length q' \<le> 2 * npos d + length q"
proof (induction ns arbitrary: d q)
  case Nil then show ?case by simp
next
  case (Cons n ns)
  let ?d = "AList.update n (deg d n - 1) d"
  show ?case
  proof (cases "deg d n = 1")
    case True
    with Cons.prems have "relax ns ?d (q @ [n]) = (d', q')" by (simp add: Let_def)
    from Cons.IH [OF this] npos_decrement [of n d] True show ?thesis by simp linarith
  next
    case False
    with Cons.prems have "relax ns ?d q = (d', q')" by (simp add: Let_def)
    from Cons.IH [OF this] npos_decrement [of n d] False show ?thesis by simp
  qed
qed

function kahn_loop ::
  "(string \<times> string list) list \<Rightarrow> (string \<times> SQLStatement) list \<Rightarrow> (string \<times> int) list
     \<Rightarrow> string list \<Rightarrow> SQLStatement list" where
  "kahn_loop graph stmtMap inDegree [] = []"
| "kahn_loop graph stmtMap inDegree (current # queue) =
     (case relax (adj graph current) inDegree queue of
        (inDegree', queue') \<Rightarrow> stmt_at stmtMap current # kahn_loop graph stmtMap inDegree' queue')"
  by pat_completeness auto
termination
proof (relation "measure (\<lambda>(graph, stmtMap, inDegree, queue). 2 * npos inDegree + length queue)")
  show "wf (measure (\<lambda>(graph, stmtMap, inDegree, queue). 2 * npos inDegree + length queue))" by simp
next
  fix graph :: "(string \<times> string list) list" and stmtMap :: "(string \<times> SQLStatement) list"
    and inDegree current queue x y
  assume "(x, y) = relax (adj graph current) inDegree queue"
  then have "relax (adj graph current) inDegree queue = (x, y)" by simp
  from relax_measure [OF this]
  show "((graph, stmtMap, x, y), (graph, stmtMap, inDegree, current # queue))
          \<in> measure (\<lambda>(graph, stmtMap, inDegree, queue). 2 * npos inDegree + length queue)"
    by simp
qed

text \<open>
  The comparison handed to \<open>sort.Slice\<close>.  The statements of a result have pairwise
  different names, so the comparison is a strict total order on them and every sorting
  algorithm returns the same list; the model sorts by insertion.
\<close>

definition typeOrder :: "string \<Rightarrow> int" where
  "typeOrder t =
     (if t = ''CREATE_TABLE'' then 1
      else if t = ''CREATE_VIEW'' then 2
      else if t = ''CREATE_PROCEDURE'' then 3
      else if t = ''CREATE_FUNCTION'' then 3
      else if t = ''CREATE_TRIGGER'' then 4
      else if t = ''CREATE_INDEX'' then 5
      else if t = ''CREATE_OTHER'' then 6
      else 0)"

definition less_stmt :: "SQLStatement \<Rightarrow> SQLStatement \<Rightarrow> bool" where
  "less_stmt a b =
     (if typeOrder (Type a) \<noteq> typeOrder (Type b) then typeOrder (Type a) < typeOrder (Type b)
      else Name a < Name b)"

fun insert_stmt :: "SQLStatement \<Rightarrow> SQLStatement list \<Rightarrow> SQLStatement list" where
  "insert_stmt x [] = [x]"
| "insert_stmt x (y # ys) = (if less_stmt y x then y # insert_stmt x ys else x # y # ys)"

definition sort_Slice :: "SQLStatement list \<Rightarrow> SQLStatement list" where
  "sort_Slice xs = foldr insert_stmt xs []"

text \<open>
  The initial queue is filled by ranging over \<open>inDegree\<close>; Go leaves the order of that
  range open, so the model takes it as the argument \<open>order\<close>, a list of the keys.
\<close>

definition SortByDependencies ::
  "string list \<Rightarrow> SQLStatement list \<Rightarrow> resolve_error + SQLStatement list" where
  "SortByDependencies order statements =
     (case fold init_step statements ([], [], []) of
        (graph0, inDegree0, stmtMap) \<Rightarrow>
          (case fold (add_deps stmtMap) statements (graph0, inDegree0) of
             (graph, inDegree) \<Rightarrow>
               (let queue = filter (\<lambda>name. map_of inDegree name = Some 0) order;
                    result = kahn_loop graph stmtMap inDegree queue
                in if length result \<noteq> length statements then Inl ErrCycle
                   else Inr (sort_Slice result))))"

subsection \<open>Sample scripts\<close>

definition orders :: SQLStatement where
  "orders = \<lparr>Type = ''CREATE_TABLE'', Name = ''orders'',
             Statement = ''CREATE TABLE orders (id INT PRIMARY KEY)'', Dependencies = []\<rparr>"

definition order_items :: SQLStatement where
  "order_items = \<lparr>Type = ''CREATE_TABLE'', Name = ''order_items'',
     Statement = ''CREATE TABLE order_items (id INT PRIMARY KEY, order_id INT, FOREIGN KEY (order_id) REFERENCES orders(id))'',
     Dependencies = [''orders'']\<rparr>"

definition stmt_a :: SQLStatement where
  "stmt_a = \<lparr>Type = ''CREATE_TABLE'', Name = ''a'',
             Statement = ''CREATE TABLE a (id INT, b_id INT REFERENCES b(id))'', Dependencies = [''b'']\<rparr>"

definition stmt_b :: SQLStatement where
  "stmt_b = \<lparr>Type = ''CREATE_TABLE'', Name = ''b'',
             Statement = ''CREATE TABLE b (id INT, a_id INT REFERENCES a(id))'', Dependencies = [''a'']\<rparr>"

definition stmt_c :: SQLStatement where
  "stmt_c = \<lparr>Type = ''CREATE_TABLE'', Name = ''c'',
             Statement = ''CREATE TABLE c (id INT)'', Dependencies = []\<rparr>"

text \<open>
  \<open>depends_on statements a b\<close>: some statement named \<open>a\<close> lists \<open>b\<close> among its dependencies
  and \<open>b\<close> is the name of a statement of the set.  A cycle is a non-empty list of names
  each of which depends on the next, the last on the first.
\<close>

definition depends_on :: "SQLStatement list \<Rightarrow> string \<Rightarrow> string \<Rightarrow> bool" where
  "depends_on statements a b =
     (b \<in> set (map Name statements)
      \<and> list_ex (\<lambda>s. Name s = a \<and> b \<in> set (Dependencies s)) statements)"

definition is_cycle :: "SQLStatement list \<Rightarrow> string list \<Rightarrow> bool" where
  "is_cycle statements c =
     (c \<noteq> [] \<and> list_all (\<lambda>(a, b). depends_on statements a b) (zip c (rotate1 c)))"

subsection \<open>Facts about the resolver\<close>

lemma relax_deg:
  "relax ns d q = (d', q') \<Longrightarrow> deg d' n = deg d n - int (count_list ns n)"
proof (induction ns arbitrary: d q)
  case Nil then show ?case by simp
next
  case (Cons m ns)
  let ?d = "AList.update m (deg d m - 1) d"
  from Cons.prems obtain q1 where "relax ns ?d q1 = (d', q')"
    by (auto simp: Let_def split: if_splits)
  from Cons.IH [OF this] show ?case by simp
qed

lemma relax_queue:
  assumes "relax ns d q = (d', q')" and "distinct q" and "\<forall>n\<in>set q. deg d n \<le> 0"
  shows "distinct q' \<and> set q \<subseteq> set q'
         \<and> set q' \<subseteq> set q \<union> {n \<in> set ns. 1 \<le> deg d n}
         \<and> (\<forall>n\<in>set q'. deg d' n \<le> 0)"
  using assms
proof (induction ns arbitrary: d q)
  case Nil then show ?case by simp
next
  case (Cons m ns)
  let ?d = "AList.update m (deg d m - 1) d"
  show ?case
  proof (cases "deg d m = 1")
    case True
    with Cons.prems(1) have r: "relax ns ?d (q @ [m]) = (d', q')" by (simp add: Let_def)
    have "m \<notin> set q" using Cons.prems(3) True by auto
    then have "distinct (q @ [m])" using Cons.prems(2) by simp
    moreover have "\<forall>n\<in>set (q @ [m]). deg ?d n \<le> 0" using Cons.prems(3) True by auto
    ultimately have "distinct q' \<and> set (q @ [m]) \<subseteq> set q'
         \<and> set q' \<subseteq> set (q @ [m]) \<union> {n \<in> set ns. 1 \<le> deg ?d n}
         \<and> (\<forall>n\<in>set q'. deg d' n \<le> 0)" by (rule Cons.IH [OF r])
    then show ?thesis using True by (auto split: if_splits)
  next
    case False
    with Cons.prems(1) have r: "relax ns ?d q = (d', q')" by (simp add: Let_def)
    have "\<forall>n\<in>set q. deg ?d n \<le> 0" using Cons.prems(3) by auto
    with Cons.prems(2) have "distinct q' \<and> set q \<subseteq> set q'
         \<and> set q' \<subseteq> set q \<union> {n \<in> set ns. 1 \<le> deg ?d n}
         \<and> (\<forall>n\<in>set q'. deg d' n \<le> 0)" by (intro Cons.IH [OF r])
    then show ?thesis by (auto split: if_splits)
  qed
qed

text \<open>The number of edges into \<open>n\<close> that leave a node of \<open>U\<close>.\<close>

definition load :: "(string \<times> string list) list \<Rightarrow> string set \<Rightarrow> string \<Rightarrow> nat" where
  "load g U n = (\<Sum>u\<in>U. count_list (adj g u) n)"

lemma load_remove:
  "finite U \<Longrightarrow> c \<in> U \<Longrightarrow> load g U n = count_list (adj g c) n + load g (U - {c}) n"
  by (simp add: load_def sum.remove)

lemma load_ge:
  "finite U \<Longrightarrow> u \<in> U \<Longrightarrow> n \<in> set (adj g u) \<Longrightarrow> 1 \<le> load g U n"
  using load_remove [of U u g n] count_list_0_iff [of "adj g u" n] by simp

lemma kahn_names:
  assumes fin: "finite K" and SK: "S \<subseteq> K"
  shows "\<forall>u. set (adj g u) \<subseteq> K \<Longrightarrow> \<forall>n\<in>S. \<exists>u\<in>S. n \<in> set (adj g u) \<Longrightarrow>
         \<forall>k\<in>K. Name (stmt_at sm k) = k \<Longrightarrow>
         distinct q \<Longrightarrow> set q \<inter> P = {} \<Longrightarrow> set q \<subseteq> K \<Longrightarrow> P \<subseteq> K \<Longrightarrow>
         \<forall>n\<in>set q \<union> P. deg d n \<le> 0 \<Longrightarrow> \<forall>n. int (load g (K - P) n) \<le> deg d n \<Longrightarrow>
         S \<inter> P = {} \<Longrightarrow>
         distinct (map Name (kahn_loop g sm d q))
         \<and> set (map Name (kahn_loop g sm d q)) \<subseteq> K - P - S"
proof (induction g sm d q arbitrary: P rule: kahn_loop.induct)
  case (1 graph stmtMap inDegree)
  then show ?case by simp
next
  case (2 graph stmtMap inDegree current queue)
  note adjK = "2.prems"(1) and pred = "2.prems"(2) and nm = "2.prems"(3)
  obtain d' q' where r: "relax (adj graph current) inDegree queue = (d', q')"
    by (cases "relax (adj graph current) inDegree queue")
  have cK: "current \<in> K" and cP: "current \<notin> P" and cq: "current \<notin> set queue"
    using "2.prems" by auto
  have c0: "deg inDegree current \<le> 0" using "2.prems" by auto
  have posS: "1 \<le> deg inDegree n" if "n \<in> S" for n
  proof -
    from that pred obtain u where u: "u \<in> S" "n \<in> set (adj graph u)" by blast
    then have "u \<in> K - P" using "2.prems" SK by auto
    with u fin have "1 \<le> load graph (K - P) n" by (intro load_ge [of _ u]) auto
    then have "1 \<le> int (load graph (K - P) n)" by simp
    moreover have "int (load graph (K - P) n) \<le> deg inDegree n" using "2.prems"(9) by simp
    ultimately show ?thesis by linarith
  qed
  have cS: "current \<notin> S" using posS c0 by force
  let ?P = "insert current P"
  have dq: "distinct queue" and q0: "\<forall>n\<in>set queue. deg inDegree n \<le> 0"
    using "2.prems" by auto
  from relax_queue [OF r dq q0]
  have rq: "distinct q'" "set queue \<subseteq> set q'"
    "set q' \<subseteq> set queue \<union> {n \<in> set (adj graph current). 1 \<le> deg inDegree n}"
    "\<forall>n\<in>set q'. deg d' n \<le> 0" by auto
  have dd: "deg d' n = deg inDegree n - int (count_list (adj graph current) n)" for n
    by (rule relax_deg [OF r])
  have pz: "\<forall>n\<in>P. deg inDegree n \<le> 0" using "2.prems" by auto
  have qP: "set queue \<inter> P = {}" using "2.prems" by auto
  have i1: "set q' \<inter> ?P = {}"
  proof -
    have "n \<notin> ?P" if "n \<in> set q'" for n
    proof (cases "n \<in> set queue")
      case True then show ?thesis using qP cq by auto
    next
      case False
      with that rq(3) have "1 \<le> deg inDegree n" by auto
      then show ?thesis using pz c0 by auto
    qed
    then show ?thesis by auto
  qed
  have qK: "set queue \<subseteq> K" using "2.prems" by auto
  have aK: "set (adj graph current) \<subseteq> K" using adjK by blast
  have i2: "set q' \<subseteq> K" using rq(3) qK aK by blast
  have i3: "?P \<subseteq> K" using cK "2.prems" by auto
  have i4: "\<forall>n\<in>set q' \<union> ?P. deg d' n \<le> 0"
  proof
    fix n assume "n \<in> set q' \<union> ?P"
    then consider "n \<in> set q'" | "n \<in> ?P" by auto
    then show "deg d' n \<le> 0"
    proof cases
      case 1 then show ?thesis using rq(4) by simp
    next
      case 2
      then have "deg inDegree n \<le> 0" using c0 "2.prems" by auto
      then show ?thesis unfolding dd by simp
    qed
  qed
  have i5: "\<forall>n. int (load graph (K - ?P) n) \<le> deg d' n"
  proof
    fix n
    have "load graph (K - P) n = count_list (adj graph current) n + load graph (K - P - {current}) n"
      using fin cK cP by (intro load_remove) auto
    moreover have "K - P - {current} = K - ?P" by auto
    moreover have "int (load graph (K - P) n) \<le> deg inDegree n" using "2.prems" by simp
    ultimately show "int (load graph (K - ?P) n) \<le> deg d' n" unfolding dd by simp
  qed
  have i6: "S \<inter> ?P = {}" using cS "2.prems" by auto
  from "2.IH" [OF r [symmetric] adjK pred nm rq(1) i1 i2 i3 i4 i5 i6]
  have ih: "distinct (map Name (kahn_loop graph stmtMap d' q'))"
    "set (map Name (kahn_loop graph stmtMap d' q')) \<subseteq> K - ?P - S" by auto
  have nmc: "Name (stmt_at stmtMap current) = current" using nm cK by auto
  show ?case
    using ih nmc cK cP cS by (auto simp: r)
qed

lemma adj_update [simp]: "adj (AList.update k v g) u = (if u = k then v else adj g u)"
  by (simp add: adj_def update_conv')

lemma stmt_at_update [simp]:
  "stmt_at (AList.update k v sm) u = (if u = k then v else stmt_at sm u)"
  by (simp add: stmt_at_def update_conv')

lemma init_fold:
  assumes "fold init_step xs (g, d, sm) = (g', d', sm')"
    and "\<forall>u. adj g u = []" "\<forall>n. deg d n = 0" "\<forall>k s. map_of sm k = Some s \<longrightarrow> Name s = k"
  shows "(\<forall>u. adj g' u = []) \<and> (\<forall>n. deg d' n = 0)
         \<and> (\<forall>k s. map_of sm' k = Some s \<longrightarrow> Name s = k)
         \<and> fst ` set d' = fst ` set d \<union> Name ` set xs
         \<and> dom (map_of sm') = dom (map_of sm) \<union> Name ` set xs"
  using assms
proof (induction xs arbitrary: g d sm)
  case Nil then show ?case by simp
next
  case (Cons x xs)
  let ?g = "AList.update (Name x) [] g" and ?d = "AList.update (Name x) 0 d"
    and ?sm = "AList.update (Name x) x sm"
  have st: "init_step x (g, d, sm) = (?g, ?d, ?sm)" by (simp add: init_step_def)
  from Cons.prems(1) have "fold init_step xs (init_step x (g, d, sm)) = (g', d', sm')" by simp
  then have f: "fold init_step xs (?g, ?d, ?sm) = (g', d', sm')" unfolding st .
  have a: "\<forall>u. adj ?g u = []" using Cons.prems(2) by simp
  have b: "\<forall>n. deg ?d n = 0" using Cons.prems(3) by simp
  have c: "\<forall>k s. map_of ?sm k = Some s \<longrightarrow> Name s = k"
    using Cons.prems(4) by (auto simp: update_conv')
  from Cons.IH [OF f a b c] show ?case
    by (auto simp: dom_update update_conv')
qed

definition binv :: "string set \<Rightarrow> (string \<times> string list) list \<Rightarrow> (string \<times> int) list \<Rightarrow> bool" where
  "binv K g d = ((\<forall>u. set (adj g u) \<subseteq> K) \<and> (\<forall>n. int (load g K n) = deg d n) \<and> fst ` set d \<subseteq> K)"

definition adj_le :: "(string \<times> string list) list \<Rightarrow> (string \<times> string list) list \<Rightarrow> bool" where
  "adj_le g g' = (\<forall>u. set (adj g u) \<subseteq> set (adj g' u))"

lemma adj_le_refl [simp]: "adj_le g g"
  by (simp add: adj_le_def)

lemma adj_le_trans: "adj_le g g' \<Longrightarrow> adj_le g' g'' \<Longrightarrow> adj_le g g''"
  unfolding adj_le_def by blast

lemma add_dep_inv:
  assumes "add_dep sm name dep (g, d) = (g', d')" and "finite K" and "name \<in> K"
    and "dom (map_of sm) = K" and "binv K g d"
  shows "binv K g' d' \<and> adj_le g g' \<and> (dep \<in> K \<longrightarrow> name \<in> set (adj g' dep))"
proof (cases "dep \<in> K")
  case False
  with assms have "g' = g" "d' = d" by (auto simp: add_dep_def)
  with assms False show ?thesis by simp
next
  case True
  with assms have g': "g' = AList.update dep (adj g dep @ [name]) g"
    and d': "d' = AList.update name (deg d name + 1) d"
    by (auto simp: add_dep_def)
  have l: "load g' K n = load g K n + (if n = name then 1 else 0)" for n
  proof -
    have "load g' K n = count_list (adj g' dep) n + load g' (K - {dep}) n"
      using assms(2) True by (rule load_remove)
    moreover have "load g K n = count_list (adj g dep) n + load g (K - {dep}) n"
      using assms(2) True by (rule load_remove)
    moreover have "load g' (K - {dep}) n = load g (K - {dep}) n"
      by (simp add: load_def g')
    ultimately show ?thesis by (simp add: g')
  qed
  have b1: "\<forall>u. set (adj g' u) \<subseteq> K"
    using assms(3,5) True unfolding binv_def by (auto simp: g')
  have b2: "\<forall>n. int (load g' K n) = deg d' n"
    using assms(5) unfolding binv_def by (simp add: l d')
  have b3: "fst ` set d' \<subseteq> K"
    using assms(3,5) unfolding binv_def by (simp add: d' dom_update)
  have "binv K g' d'"
    using b1 b2 b3 unfolding binv_def by simp
  moreover have "adj_le g g'" by (auto simp: adj_le_def g')
  moreover have "name \<in> set (adj g' dep)" by (simp add: g')
  ultimately show ?thesis by simp
qed

lemma add_deps_fold:
  assumes "fold (add_dep sm name) deps (g, d) = (g', d')" and "finite K" and "name \<in> K"
    and "dom (map_of sm) = K" and "binv K g d"
  shows "binv K g' d' \<and> adj_le g g' \<and> (\<forall>dep\<in>set deps. dep \<in> K \<longrightarrow> name \<in> set (adj g' dep))"
  using assms(1,5)
proof (induction deps arbitrary: g d)
  case Nil then show ?case by simp
next
  case (Cons dep deps)
  obtain g1 d1 where s: "add_dep sm name dep (g, d) = (g1, d1)"
    by (cases "add_dep sm name dep (g, d)")
  with Cons.prems(1) have f: "fold (add_dep sm name) deps (g1, d1) = (g', d')" by simp
  from add_dep_inv [OF s assms(2,3,4) Cons.prems(2)]
  have a: "binv K g1 d1" "adj_le g g1" "dep \<in> K \<longrightarrow> name \<in> set (adj g1 dep)" by auto
  from Cons.IH [OF f a(1)]
  have b: "binv K g' d'" "adj_le g1 g'" "\<forall>dep\<in>set deps. dep \<in> K \<longrightarrow> name \<in> set (adj g' dep)"
    by auto
  from a(3) b(2) have "dep \<in> K \<longrightarrow> name \<in> set (adj g' dep)"
    unfolding adj_le_def by blast
  with b adj_le_trans [OF a(2) b(2)] show ?case by simp
qed

lemma build_fold:
  assumes "fold (add_deps sm) xs (g, d) = (g', d')" and "finite K" and "Name ` set xs \<subseteq> K"
    and "dom (map_of sm) = K" and "binv K g d"
  shows "binv K g' d' \<and> adj_le g g'
         \<and> (\<forall>s\<in>set xs. \<forall>dep\<in>set (Dependencies s). dep \<in> K \<longrightarrow> Name s \<in> set (adj g' dep))"
  using assms(1,3,5)
proof (induction xs arbitrary: g d)
  case Nil then show ?case by simp
next
  case (Cons x xs)
  obtain g1 d1 where s: "fold (add_dep sm (Name x)) (Dependencies x) (g, d) = (g1, d1)"
    by (cases "fold (add_dep sm (Name x)) (Dependencies x) (g, d)")
  then have st: "add_deps sm x (g, d) = (g1, d1)" by (simp add: add_deps_def)
  from Cons.prems(1) have "fold (add_deps sm) xs (add_deps sm x (g, d)) = (g', d')" by simp
  then have f: "fold (add_deps sm) xs (g1, d1) = (g', d')" unfolding st .
  have xK: "Name x \<in> K" using Cons.prems(2) by simp
  from add_deps_fold [OF s assms(2) xK assms(4) Cons.prems(3)]
  have a: "binv K g1 d1" "adj_le g g1"
    "\<forall>dep\<in>set (Dependencies x). dep \<in> K \<longrightarrow> Name x \<in> set (adj g1 dep)" by auto
  have "Name ` set xs \<subseteq> K" using Cons.prems(2) by simp
  from Cons.IH [OF f this a(1)]
  have b: "binv K g' d'" "adj_le g1 g'"
    "\<forall>s\<in>set xs. \<forall>dep\<in>set (Dependencies s). dep \<in> K \<longrightarrow> Name s \<in> set (adj g' dep)" by auto
  from a(3) b(2) have "\<forall>dep\<in>set (Dependencies x). dep \<in> K \<longrightarrow> Name x \<in> set (adj g' dep)"
    unfolding adj_le_def by blast
  with b adj_le_trans [OF a(2) b(2)] show ?case by simp
qed

lemma is_cycle_closed:
  assumes "is_cycle statements c" and "n \<in> set c"
  shows "\<exists>u\<in>set c. depends_on statements n u"
proof -
  from assms(2) obtain i where i: "i < length c" "c ! i = n" by (auto simp: in_set_conv_nth)
  then have "(c ! i, rotate1 c ! i) \<in> set (zip c (rotate1 c))"
    by (auto simp: set_zip)
  with assms(1) i have "depends_on statements n (rotate1 c ! i)"
    by (auto simp: is_cycle_def list_all_iff)
  moreover have "rotate1 c ! i \<in> set c"
    using i(1) by (metis length_rotate1 nth_mem set_rotate1)
  ultimately show ?thesis by blast
qed

section \<open>Cycles are rejected\<close>

text \<open>
  C4.  If the dependencies among the names of the statement set contain a cycle, the
  resolver returns the cycle error and no list, whichever order the runtime ranges
  over the keys in: a name on the cycle never reaches in-degree zero, so fewer
  statements are emitted than were given.
\<close>

theorem cycle_is_rejected:
  assumes cyc: "is_cycle statements c" and ord: "distinct order"
  shows "SortByDependencies order statements = Inl ErrCycle"
proof -
  define K where "K = Name ` set statements"
  define S where "S = set c"
  have fin: "finite K" by (simp add: K_def)
  obtain g0 d0 sm where i: "fold init_step statements ([], [], []) = (g0, d0, sm)"
    by (metis prod_cases3)
  obtain g d where b: "fold (add_deps sm) statements (g0, d0) = (g, d)"
    by (cases "fold (add_deps sm) statements (g0, d0)")
  from init_fold [OF i]
  have i0: "\<forall>u. adj g0 u = []" "\<forall>n. deg d0 n = 0"
    "\<forall>k s. map_of sm k = Some s \<longrightarrow> Name s = k" "fst ` set d0 = K" "dom (map_of sm) = K"
    by (simp_all add: adj_def deg_def K_def)
  have binv0: "binv K g0 d0"
    using i0 by (simp add: binv_def load_def)
  from build_fold [OF b fin _ i0(5) binv0]
  have bi: "binv K g d"
    and edges: "\<forall>s\<in>set statements. \<forall>dep\<in>set (Dependencies s). dep \<in> K \<longrightarrow> Name s \<in> set (adj g dep)"
    by (auto simp: K_def)
  have SK: "S \<subseteq> K"
  proof
    fix n assume "n \<in> S"
    with is_cycle_closed [OF cyc] obtain u where "depends_on statements n u" unfolding S_def by blast
    then show "n \<in> K" by (auto simp: depends_on_def list_ex_iff K_def)
  qed
  have pred: "\<forall>n\<in>S. \<exists>u\<in>S. n \<in> set (adj g u)"
  proof
    fix n assume "n \<in> S"
    with is_cycle_closed [OF cyc] obtain u where u: "u \<in> S" "depends_on statements n u"
      unfolding S_def by blast
    then obtain s where "s \<in> set statements" "Name s = n" "u \<in> set (Dependencies s)" "u \<in> K"
      by (auto simp: depends_on_def list_ex_iff K_def)
    with edges have "n \<in> set (adj g u)" by blast
    with u(1) show "\<exists>u\<in>S. n \<in> set (adj g u)" by blast
  qed
  have nm: "\<forall>k\<in>K. Name (stmt_at sm k) = k"
  proof
    fix k assume "k \<in> K"
    with i0(5) obtain s where "map_of sm k = Some s" by auto
    with i0(3) show "Name (stmt_at sm k) = k" by (auto simp: stmt_at_def)
  qed
  define queue where "queue = filter (\<lambda>name. map_of d name = Some 0) order"
  have q1: "distinct queue" using ord by (simp add: queue_def)
  have q2: "set queue \<subseteq> K"
  proof
    fix n assume "n \<in> set queue"
    then have "map_of d n = Some 0" by (simp add: queue_def)
    then have "n \<in> fst ` set d" by (metis map_of_eq_None_iff option.distinct(1))
    with bi show "n \<in> K" by (auto simp: binv_def)
  qed
  have q3: "\<forall>n\<in>set queue \<union> {}. deg d n \<le> 0"
    by (auto simp: queue_def deg_def)
  have q4: "\<forall>n. int (load g (K - {}) n) \<le> deg d n"
    using bi by (simp add: binv_def)
  have adjK: "\<forall>u. set (adj g u) \<subseteq> K" using bi by (simp add: binv_def)
  define result where "result = kahn_loop g sm d queue"
  from kahn_names [OF fin SK adjK pred nm q1 _ q2 _ q3 q4]
  have r: "distinct (map Name result)" "set (map Name result) \<subseteq> K - S"
    by (auto simp: result_def)
  have "S \<noteq> {}" using cyc by (simp add: S_def is_cycle_def)
  then have "K - S \<subset> K" using SK by auto
  then have "card (K - S) < card K" using fin by (intro psubset_card_mono)
  moreover have "length result = card (set (map Name result))"
    using r(1) by (metis distinct_card length_map)
  moreover have "card (set (map Name result)) \<le> card (K - S)"
    using r(2) fin by (intro card_mono) auto
  moreover have "card K \<le> length statements"
    unfolding K_def by (metis card_image_le card_length List.finite_set order_trans)
  ultimately have "length result \<noteq> length statements" by linarith
  then show ?thesis
    by (simp add: SortByDependencies_def i b Let_def queue_def [symmetric] result_def [symmetric])
qed

theorem cycle_is_rejected_witness:
  "is_cycle [stmt_a, stmt_b, stmt_c] [''a'', ''b''] \<and> distinct [''c'', ''b'', ''a'']
   \<and> SortByDependencies [''c'', ''b'', ''a''] [stmt_a, stmt_b, stmt_c] = Inl ErrCycle"
proof -
  have c: "is_cycle [stmt_a, stmt_b, stmt_c] [''a'', ''b'']" by code_simp
  have d: "distinct [''c'', ''b'', ''a'']" by simp
  from cycle_is_rejected [OF c d] c d show ?thesis by simp
qed

section \<open>Order of the resolver's output\<close>

text \<open>
  C1.  A script with the tables \<open>orders\<close> and \<open>order_items\<close>, the second with a foreign key
  to the first.  Kahn's algorithm emits \<open>orders\<close> first, but the closing \<open>sort.Slice\<close> by
  type priority and then by name puts \<open>order_items\<close> first, since both are tables and
  \<open>order_items\<close> is the smaller name: the output places the statement before the one it
  depends on, in either order of the input and of the key range.
\<close>

theorem order_items_sorted_before_orders:
  "''orders'' \<in> set (Dependencies order_items)
   \<and> SortByDependencies [''orders'', ''order_items''] [orders, order_items] = Inr [order_items, orders]
   \<and> SortByDependencies [''order_items'', ''orders''] [orders, order_items] = Inr [order_items, orders]
   \<and> SortByDependencies [''orders'', ''order_items''] [order_items, orders] = Inr [order_items, orders]
   \<and> SortByDependencies [''order_items'', ''orders''] [order_items, orders] = Inr [order_items, orders]"
  by code_simp

section \<open>Statement parser (internal/sqlparser)\<close>



















text \<open>
  The scan state of \<open>ParseFile\<close>: the parser's delimiter, the statement accumulated so
  far, the three flags shared with \<open>processLine\<close>, the line counter and the statements
  found.
\<close>

record parser_state =
  delimiter :: string
  currentStatement :: string
  inMultiLineComment :: bool
  inString :: bool
  stringChar :: char
  lineNumber :: int
  statements :: "SQLStatement list"












subsection \<open>Facts about the line loop\<close>




section \<open>Unterminated text at the end of a script\<close>




end
